theory Spec2Isabelle
  imports Complex_Main "HOL-Library.Product_Lexorder" "HOL-Library.Log_Nat"
begin

text \<open>
  A shallow embedding of \<^verbatim>\<open>main.py\<close>, the typosquatting risk analyzer, and of the
  part of Python's \<^verbatim>\<open>difflib.SequenceMatcher\<close> (CPython 3.11) that
  \<^verbatim>\<open>calculate_similarity\<close> runs. A Python \<^verbatim>\<open>str\<close> is a \<^typ>\<open>string\<close>: the
  characters are the code points below 256.
\<close>

section \<open>Strings: \<open>str.strip\<close>, \<open>str.split\<close>, \<open>str.startswith\<close>, \<open>str.lower\<close>\<close>

text \<open>
  \<^verbatim>\<open>str.isspace\<close> on one character. Below 256 Python's whitespace is TAB, LF, VT, FF,
  CR, the separators FS, GS, RS, US (28 to 31), the space, NEL (133) and the no-break
  space (160).
\<close>

definition isspace :: "char \<Rightarrow> bool" where
  "isspace c = (let n = (of_char c :: nat) in
     (9 \<le> n \<and> n \<le> 13) \<or> (28 \<le> n \<and> n \<le> 32) \<or> n = 133 \<or> n = 160)"

definition lstrip :: "string \<Rightarrow> string" where
  "lstrip s = dropWhile isspace s"

definition rstrip :: "string \<Rightarrow> string" where
  "rstrip s = rev (dropWhile isspace (rev s))"

definition strip :: "string \<Rightarrow> string" where
  "strip s = rstrip (lstrip s)"

definition startswith :: "string \<Rightarrow> string \<Rightarrow> bool" where
  "startswith s p = (take (length p) s = p)"

text \<open>
  \<^verbatim>\<open>s.split("==")\<close>: the pieces between the occurrences of the separator, found
  from left to right without overlap. The result always has a first piece.
\<close>

fun split_eqeq :: "string \<Rightarrow> string list" where
  "split_eqeq [] = [[]]"
| "split_eqeq [c] = [[c]]"
| "split_eqeq (c # d # cs) =
     (if c = CHR ''='' \<and> d = CHR ''='' then [] # split_eqeq cs
      else (case split_eqeq (d # cs) of
              [] \<Rightarrow> [[c]]
            | p # ps \<Rightarrow> (c # p) # ps))"

text \<open>
  \<^verbatim>\<open>str.lower\<close> on one character below 256: the ASCII capitals and the Latin-1
  capitals 192 to 222 (215, the multiplication sign, apart) move up by 32.
\<close>

definition lower_char :: "char \<Rightarrow> char" where
  "lower_char c = (let n = (of_char c :: nat) in
     if (65 \<le> n \<and> n \<le> 90) \<or> (192 \<le> n \<and> n \<le> 222 \<and> n \<noteq> 215)
     then char_of (n + 32) else c)"

definition lower :: "string \<Rightarrow> string" where
  "lower s = map lower_char s"

section \<open>Manifest reader: the comprehension of \<open>analyze_dependencies\<close>\<close>

text \<open>
  Iterating over a text file yields its lines, each with its terminating newline
  (the last line may lack one). The text is what the file object delivers: decoded,
  with the line endings already translated to LF.
\<close>

fun iter_lines :: "string \<Rightarrow> string list" where
  "iter_lines [] = []"
| "iter_lines (c # cs) =
     (if c = CHR 0x0A then [c] # iter_lines cs
      else (case iter_lines cs of
              [] \<Rightarrow> [[c]]
            | l # ls \<Rightarrow> (c # l) # ls))"

text \<open>
  \<^verbatim>\<open>[line.strip().split("==")[0] for line in f
     if line.strip() and not line.startswith("#")]\<close>
\<close>

definition keep_line :: "string \<Rightarrow> bool" where
  "keep_line line = (strip line \<noteq> [] \<and> \<not> startswith line ''#'')"

definition line_name :: "string \<Rightarrow> string" where
  "line_name line = hd (split_eqeq (strip line))"

definition dependencies_of :: "string list \<Rightarrow> string list" where
  "dependencies_of lines = map line_name (filter keep_line lines)"

section \<open>Reference provider: \<open>get_top_pypi_packages\<close>\<close>

text \<open>
  Python's slice \<open>xs[:n]\<close> for an arbitrary integer \<open>n\<close>: a non-negative bound
  is clipped to the length, a negative bound counts from the end
  (\<open>len(xs) + n\<close>, clipped at 0).
\<close>

definition slice_to :: "'a list \<Rightarrow> int \<Rightarrow> 'a list" where
  "slice_to xs n =
     (if 0 \<le> n then take (nat n) xs else take (nat (int (length xs) + n)) xs)"

definition popular_packages :: "string list" where
  "popular_packages =
     [''requests'', ''numpy'', ''pandas'', ''django'', ''flask'', ''tensorflow'',
      ''torch'', ''scikit-learn'', ''matplotlib'', ''beautifulsoup4'', ''pytest'',
      ''sqlalchemy'', ''celery'', ''scrapy'', ''tornado'', ''aiohttp'', ''gunicorn'',
      ''psycopg2'', ''redis'', ''boto3'']"

definition get_top_pypi_packages :: "int \<Rightarrow> string list" where
  "get_top_pypi_packages top_n = slice_to popular_packages top_n"

lemma length_popular_packages: "length popular_packages = 20"
  by (simp add: popular_packages_def)

section \<open>Doubles: a Python \<open>float\<close>\<close>

text \<open>
  A finite double is represented by the rational number it denotes. The exponent
  range is not modelled: the numbers converted and divided here are lengths of
  strings and counts of matched characters, below \<open>2 ^ 63\<close> in CPython, and their
  quotients, far from overflow and underflow.
\<close>

text \<open>
  Rounding a rational to the nearest integer, ties to the even one.
\<close>

definition round_half_even :: "rat \<Rightarrow> int" where
  "round_half_even z =
     (let f = \<lfloor>z\<rfloor>; r = z - of_int f
      in if r < 1 / 2 then f else if 1 / 2 < r then f + 1 else if even f then f else f + 1)"

text \<open>
  The binary exponent of a positive rational \<open>x\<close>: the \<open>e\<close> with
  \<open>2 powi e \<le> x < 2 powi (e + 1)\<close>, read off the bit length of \<open>\<lfloor>x\<rfloor>\<close> when
  \<open>1 \<le> x\<close> and of \<open>\<lceil>1 / x\<rceil> - 1\<close> otherwise.
\<close>

definition exponent :: "rat \<Rightarrow> int" where
  "exponent x = (if 1 \<le> x then bitlen \<lfloor>x\<rfloor> - 1 else - bitlen (\<lceil>1 / x\<rceil> - 1))"

text \<open>
  A double has a significand of 53 bits: in the binade of exponent \<open>e\<close> the doubles
  are the multiples of \<open>ulp e = 2 powi (e - 52)\<close>. \<open>round_double x\<close> is the double
  nearest to \<open>x\<close>, ties to the even significand: the result of every IEEE 754
  operation and of converting an \<^verbatim>\<open>int\<close> to a \<^verbatim>\<open>float\<close> is the exact result
  rounded this way.
\<close>

definition ulp :: "int \<Rightarrow> rat" where
  "ulp e = 2 powi (e - 52)"

definition round_double :: "rat \<Rightarrow> rat" where
  "round_double x =
     (if x = 0 then 0
      else (let u = ulp (exponent \<bar>x\<bar>)
            in of_int (round_half_even (x / u)) * u))"


text \<open>
  \<^verbatim>\<open>float(n)\<close> for an \<^verbatim>\<open>int\<close>, and the product and the quotient of two
  doubles.
\<close>

definition float_of_int :: "nat \<Rightarrow> rat" where
  "float_of_int n = round_double (of_nat n)"

definition float_mul :: "rat \<Rightarrow> rat \<Rightarrow> rat" where
  "float_mul x y = round_double (x * y)"

definition float_div :: "rat \<Rightarrow> rat \<Rightarrow> rat" where
  "float_div x y = round_double (x / y)"

subsection \<open>Properties of rounding\<close>

lemma round_half_even_of_int [simp]: "round_half_even (of_int k) = k"
  by (simp add: round_half_even_def)

lemma round_half_even_range: "\<lfloor>z\<rfloor> \<le> round_half_even z \<and> round_half_even z \<le> \<lfloor>z\<rfloor> + 1"
  by (simp add: round_half_even_def Let_def)

lemma round_half_even_mono:
  assumes "z \<le> w"
  shows "round_half_even z \<le> round_half_even w"
proof (cases "\<lfloor>z\<rfloor> = \<lfloor>w\<rfloor>")
  case True
  have "z - of_int \<lfloor>z\<rfloor> \<le> w - of_int \<lfloor>w\<rfloor>" using assms True by simp
  then show ?thesis
    unfolding round_half_even_def Let_def using True by auto
next
  case False
  with assms have "\<lfloor>z\<rfloor> < \<lfloor>w\<rfloor>" by (simp add: floor_mono order.strict_iff_order)
  then have "\<lfloor>z\<rfloor> + 1 \<le> \<lfloor>w\<rfloor>" by simp
  with round_half_even_range [of z] round_half_even_range [of w] show ?thesis by linarith
qed

lemma exponent_bounds:
  assumes "0 < x"
  shows "2 powi exponent x \<le> x \<and> x < 2 powi (exponent x + 1)"
proof (cases "1 \<le> x")
  case True
  define n where "n = \<lfloor>x\<rfloor>"
  have n: "0 < n" using True by (simp add: n_def)
  from bitlen_bounds [OF n] have b: "2 ^ nat (bitlen n - 1) \<le> n" "n < 2 ^ nat (bitlen n)"
    by simp_all
  have pos: "1 \<le> bitlen n" using n by (auto simp: bitlen_alt_def)
  have e: "exponent x = bitlen n - 1" using True by (simp add: exponent_def n_def)
  have "(2::rat) powi (bitlen n - 1) = of_int (2 ^ nat (bitlen n - 1))"
    using pos by (simp add: power_int_nonneg_exp)
  also have "\<dots> \<le> of_int n" using b(1) by (simp only: of_int_le_iff)
  also have "\<dots> \<le> x" by (simp add: n_def)
  finally have lo: "2 powi exponent x \<le> x" by (simp add: e)
  have "x < of_int (n + 1)" using floor_correct [of x] by (simp add: n_def)
  also have "\<dots> \<le> of_int (2 ^ nat (bitlen n))"
    using b(2) by (simp only: of_int_le_iff zless_imp_add1_zle)
  also have "\<dots> = (2::rat) powi bitlen n"
    using pos by (simp add: power_int_nonneg_exp)
  finally have "x < 2 powi (exponent x + 1)" by (simp add: e)
  with lo show ?thesis by simp
next
  case False
  define y where "y = 1 / x"
  define c where "c = \<lceil>y\<rceil>"
  have x: "x < 1" using False by simp
  have y: "1 < y" using assms x by (simp add: y_def)
  then have c: "2 \<le> c" unfolding c_def by (simp add: le_ceiling_iff)
  define j where "j = bitlen (c - 1)"
  have c1: "0 < c - 1" using c by simp
  from bitlen_bounds [OF c1] have b: "2 ^ nat (j - 1) \<le> c - 1" "c - 1 < 2 ^ nat j"
    by (simp_all add: j_def)
  have pos: "1 \<le> j" using c1 by (auto simp: j_def bitlen_alt_def)
  have e: "exponent x = - j" using False by (simp add: exponent_def j_def c_def y_def)
  have "y \<le> of_int c" by (simp add: c_def)
  also have "\<dots> \<le> of_int (2 ^ nat j)" using b(2) by (simp only: of_int_le_iff)
  also have "\<dots> = (2::rat) powi j" using pos by (simp add: power_int_nonneg_exp)
  finally have "y \<le> 2 powi j" .
  then have "1 / (2 powi j) \<le> 1 / y"
    using y by (intro divide_left_mono) (simp_all add: mult_pos_pos)
  then have lo: "2 powi exponent x \<le> x"
    using assms by (simp add: e y_def power_int_minus_divide)
  have "(2::rat) powi (j - 1) = of_int (2 ^ nat (j - 1))"
    using pos by (simp add: power_int_nonneg_exp)
  also have "\<dots> \<le> of_int (c - 1)" using b(1) by (simp only: of_int_le_iff)
  also have "\<dots> < y" unfolding c_def by (simp add: ceiling_correct less_ceiling_iff)
  finally have "2 powi (j - 1) < y" .
  then have "1 / y < 1 / (2 powi (j - 1))"
    using y by (intro divide_strict_left_mono) (simp_all add: mult_pos_pos)
  moreover have "1 / ((2::rat) powi (j - 1)) = 2 powi (- j + 1)"
    by (simp add: power_int_minus_divide [symmetric])
  ultimately have "x < 2 powi (exponent x + 1)"
    using assms by (simp add: e y_def)
  with lo show ?thesis by simp
qed

lemma exponent_unique:
  assumes "0 < x" "2 powi e \<le> x" "x < 2 powi (e + 1)"
  shows "exponent x = e"
proof (rule ccontr)
  assume ne: "exponent x \<noteq> e"
  from exponent_bounds [OF assms(1)]
  have b: "2 powi exponent x \<le> x" "x < 2 powi (exponent x + 1)" by simp_all
  show False
  proof (cases "exponent x < e")
    case True
    then have "(2::rat) powi (exponent x + 1) \<le> 2 powi e"
      by (intro power_int_increasing) simp_all
    with b(2) assms(2) show False by simp
  next
    case False
    with ne have "e + 1 \<le> exponent x" by simp
    then have "(2::rat) powi (e + 1) \<le> 2 powi exponent x"
      by (intro power_int_increasing) simp_all
    with b(1) assms(3) show False by simp
  qed
qed


text \<open>
  The significand of a rounded positive number lies between \<open>2 ^ 52\<close> and
  \<open>2 ^ 53\<close>, the upper end being the first double of the next binade.
\<close>

definition mant_lo :: int where "mant_lo = 2 ^ 52"

definition mant_hi :: int where "mant_hi = 2 ^ 53"

lemma ulp_pos [simp]: "0 < ulp e"
  by (simp add: ulp_def)

lemma ulp_nonzero [simp]: "ulp e \<noteq> 0"
  by (simp add: ulp_def)

lemma ulp_lo: "of_int mant_lo * ulp e = 2 powi e"
  by (simp add: ulp_def mant_lo_def power_int_diff)

lemma ulp_hi: "of_int mant_hi * ulp e = 2 powi (e + 1)"
  by (simp add: ulp_def mant_hi_def power_int_diff power_int_add)

lemma ulp_Suc: "ulp (e + 1) = 2 * ulp e"
  by (simp add: ulp_def power_int_diff power_int_add)

lemma pow2_Suc: "(2::rat) powi (e + 1) = 2 * 2 powi e"
  by (simp add: power_int_add)

lemma mant_lo_less_hi: "mant_lo < mant_hi"
  by (simp add: mant_lo_def mant_hi_def)

lemma round_double_zero [simp]: "round_double 0 = 0"
  by (simp add: round_double_def)

lemma round_double_pos_eq:
  "0 < x \<Longrightarrow> round_double x
     = of_int (round_half_even (x / ulp (exponent x))) * ulp (exponent x)"
  by (simp add: round_double_def Let_def)

lemma scaled_bounds:
  assumes "0 < x"
  shows "of_int mant_lo \<le> x / ulp (exponent x) \<and> x / ulp (exponent x) \<le> of_int mant_hi"
proof -
  from exponent_bounds [OF assms]
  have "of_int mant_lo * ulp (exponent x) \<le> x" "x \<le> of_int mant_hi * ulp (exponent x)"
    by (simp_all only: ulp_lo ulp_hi less_imp_le)
  then show ?thesis
    by (simp only: pos_le_divide_eq pos_divide_le_eq ulp_pos)
qed

lemma mantissa_bounds:
  assumes "0 < x"
  shows "mant_lo \<le> round_half_even (x / ulp (exponent x))
       \<and> round_half_even (x / ulp (exponent x)) \<le> mant_hi"
proof -
  from scaled_bounds [OF assms]
  have "of_int mant_lo \<le> x / ulp (exponent x)" "x / ulp (exponent x) \<le> of_int mant_hi"
    by simp_all
  from round_half_even_mono [OF this(1)] round_half_even_mono [OF this(2)]
  show ?thesis by (simp only: round_half_even_of_int) 
qed

lemma round_double_bounds:
  assumes "0 < x"
  shows "2 powi exponent x \<le> round_double x \<and> round_double x \<le> 2 powi (exponent x + 1)"
proof -
  define u where "u = ulp (exponent x)"
  define k where "k = round_half_even (x / u)"
  have u: "0 < u" by (simp add: u_def)
  have r: "round_double x = of_int k * u"
    using assms by (simp add: round_double_pos_eq k_def u_def)
  from mantissa_bounds [OF assms] have "mant_lo \<le> k" "k \<le> mant_hi"
    by (simp_all add: k_def u_def)
  then have "(of_int mant_lo :: rat) \<le> of_int k" "(of_int k :: rat) \<le> of_int mant_hi"
    by (simp_all only: of_int_le_iff)
  then have "of_int mant_lo * u \<le> of_int k * u" "of_int k * u \<le> of_int mant_hi * u"
    using u by (simp_all only: mult_le_cancel_right_pos)
  then show ?thesis
    unfolding r u_def by (simp only: ulp_lo ulp_hi)
qed

lemma round_double_pos: "0 < x \<Longrightarrow> 0 < round_double x"
proof -
  assume x: "0 < x"
  have "(0::rat) < 2 powi exponent x" by simp
  with round_double_bounds [OF x] show ?thesis by linarith
qed

lemma exponent_mono:
  assumes "0 < x" "x \<le> y"
  shows "exponent x \<le> exponent y"
proof (rule ccontr)
  assume "\<not> exponent x \<le> exponent y"
  then have "exponent y + 1 \<le> exponent x" by simp
  then have "(2::rat) powi (exponent y + 1) \<le> 2 powi exponent x"
    by (intro power_int_increasing) simp_all
  moreover from assms have y: "0 < y" by simp
  ultimately show False
    using exponent_bounds [OF assms(1)] exponent_bounds [OF y] assms(2) by linarith
qed

lemma round_double_mono:
  assumes "0 < x" "x \<le> y"
  shows "round_double x \<le> round_double y"
proof -
  from assms have y: "0 < y" by simp
  show ?thesis
  proof (cases "exponent x = exponent y")
    case True
    define u where "u = ulp (exponent x)"
    have u: "0 < u" by (simp add: u_def)
    have "x / u \<le> y / u" using assms(2) u by (simp add: divide_right_mono)
    then have "round_half_even (x / u) \<le> round_half_even (y / u)"
      by (rule round_half_even_mono)
    then have "(of_int (round_half_even (x / u)) :: rat) * u \<le> of_int (round_half_even (y / u)) * u"
      using u by simp
    then show ?thesis
      using assms(1) y True by (simp add: round_double_pos_eq u_def)
  next
    case False
    with exponent_mono [OF assms] have "exponent x + 1 \<le> exponent y" by simp
    then have "(2::rat) powi (exponent x + 1) \<le> 2 powi exponent y"
      by (intro power_int_increasing) simp_all
    with round_double_bounds [OF assms(1)] round_double_bounds [OF y]
    show ?thesis by linarith
  qed
qed

lemma exponent_double:
  assumes "0 < x"
  shows "exponent (2 * x) = exponent x + 1"
proof (rule exponent_unique)
  show "0 < 2 * x" using assms by simp
  from exponent_bounds [OF assms]
  show "2 powi (exponent x + 1) \<le> 2 * x" "2 * x < 2 powi (exponent x + 1 + 1)"
    by (simp_all only: pow2_Suc) simp_all
qed

lemma round_double_scale:
  assumes "0 < x"
  shows "round_double (2 * x) = 2 * round_double x"
proof -
  have p: "0 < 2 * x" using assms by simp
  have "2 * x / (2 * ulp (exponent x)) = x / ulp (exponent x)" by simp
  then show ?thesis
    unfolding round_double_pos_eq [OF p] round_double_pos_eq [OF assms]
      exponent_double [OF assms] ulp_Suc
    by simp
qed

lemma round_double_idem:
  assumes "0 < x"
  shows "round_double (round_double x) = round_double x"
proof -
  define e where "e = exponent x"
  define u where "u = ulp e"
  define k where "k = round_half_even (x / u)"
  define y where "y = round_double x"
  have u: "0 < u" by (simp add: u_def)
  have r: "y = of_int k * u"
    using assms by (simp add: y_def round_double_pos_eq k_def u_def e_def)
  have y: "0 < y" unfolding y_def by (rule round_double_pos [OF assms])
  from mantissa_bounds [OF assms] have k: "mant_lo \<le> k" "k \<le> mant_hi"
    by (simp_all add: k_def u_def e_def)
  from round_double_bounds [OF assms] have lo: "2 powi e \<le> y"
    by (simp add: y_def e_def)
  show ?thesis
  proof (cases "k = mant_hi")
    case True
    have yp: "y = 2 powi (e + 1)"
      unfolding r True u_def by (rule ulp_hi)
    have ey: "exponent y = e + 1"
    proof (rule exponent_unique [OF y])
      show "2 powi (e + 1) \<le> y" by (simp add: yp)
      show "y < 2 powi (e + 1 + 1)" unfolding yp pow2_Suc [of "e + 1"] by simp
    qed
    have "y = of_int mant_lo * ulp (e + 1)" unfolding yp by (rule ulp_lo [symmetric])
    then have q: "y / ulp (e + 1) = of_int mant_lo" by simp
    have "round_double y = of_int (round_half_even (y / ulp (e + 1))) * ulp (e + 1)"
      unfolding round_double_pos_eq [OF y] ey ..
    also have "\<dots> = of_int mant_lo * ulp (e + 1)"
      unfolding q round_half_even_of_int ..
    also have "\<dots> = y" unfolding yp by (rule ulp_lo)
    finally show ?thesis by (simp add: y_def)
  next
    case False
    with k have "k < mant_hi" by simp
    then have "(of_int k :: rat) < of_int mant_hi" by (simp only: of_int_less_iff)
    then have "of_int k * u < of_int mant_hi * u"
      using u by (simp only: mult_less_cancel_right_pos)
    then have hi: "y < 2 powi (e + 1)"
      unfolding r u_def by (simp only: ulp_hi)
    have ey: "exponent y = e" by (rule exponent_unique [OF y lo hi])
    have q: "y / ulp e = of_int k" unfolding r u_def by simp
    have "round_double y = of_int (round_half_even (y / ulp e)) * ulp e"
      unfolding round_double_pos_eq [OF y] ey ..
    also have "\<dots> = y" by (simp add: r u_def)
    finally show ?thesis by (simp add: y_def)
  qed
qed

lemma round_double_one [simp]: "round_double 1 = 1"
  by code_simp

text \<open>
  Rounding is monotone on positive numbers, commutes with doubling and leaves a
  double as it is; hence the three facts about \<^verbatim>\<open>2.0 * matches / length\<close> used
  below.
\<close>

lemma float_of_int_zero [simp]: "float_of_int 0 = 0"
  by (simp add: float_of_int_def)

lemma float_of_int_pos: "0 < n \<Longrightarrow> 0 < float_of_int n"
  by (simp add: float_of_int_def round_double_pos)

lemma float_of_int_double: "float_of_int (n + n) = 2 * float_of_int n"
proof (cases "n = 0")
  case True
  then show ?thesis by simp
next
  case False
  then have "(0::rat) < of_nat n" by simp
  from round_double_scale [OF this]
  have "round_double (2 * of_nat n) = 2 * round_double (of_nat n)" .
  moreover have "(of_nat (n + n) :: rat) = 2 * of_nat n" by simp
  ultimately show ?thesis by (simp only: float_of_int_def)
qed

lemma float_mul_two: "float_mul 2 (float_of_int n) = 2 * float_of_int n"
proof (cases "n = 0")
  case True
  then show ?thesis by (simp add: float_mul_def)
next
  case False
  then have p: "(0::rat) < of_nat n" by simp
  have "round_double (2 * round_double (of_nat n)) = 2 * round_double (round_double (of_nat n))"
    by (rule round_double_scale) (rule round_double_pos [OF p])
  then show ?thesis
    by (simp add: float_mul_def float_of_int_def round_double_idem [OF p])
qed

lemma float_of_int_mono: "m \<le> n \<Longrightarrow> float_of_int m \<le> float_of_int n"
proof (cases "m = 0")
  case True
  assume "m \<le> n"
  show ?thesis
  proof (cases "n = 0")
    case True
    with \<open>m = 0\<close> show ?thesis by simp
  next
    case False
    with float_of_int_pos [of n] \<open>m = 0\<close> show ?thesis by simp
  qed
next
  case False
  assume "m \<le> n"
  with False have "(0::rat) < of_nat m" "(of_nat m :: rat) \<le> of_nat n" by simp_all
  from round_double_mono [OF this] show ?thesis by (simp add: float_of_int_def)
qed

section \<open>Similarity scorer: \<open>difflib.SequenceMatcher(None, a, b).ratio()\<close>\<close>

text \<open>
  \<^verbatim>\<open>calculate_similarity\<close> builds a \<^verbatim>\<open>SequenceMatcher\<close> with \<^verbatim>\<open>isjunk = None\<close> and
  the default \<^verbatim>\<open>autojunk = True\<close>, and asks for its \<^verbatim>\<open>ratio()\<close>. The methods that
  run are \<^verbatim>\<open>__chain_b\<close>, \<^verbatim>\<open>find_longest_match\<close>, \<^verbatim>\<open>get_matching_blocks\<close>,
  \<^verbatim>\<open>ratio\<close> and \<^verbatim>\<open>_calculate_ratio\<close>. Indices are natural numbers; a dictionary is
  a map.
\<close>

type_synonym b2j_map = "char \<rightharpoonup> nat list"
type_synonym j2len_map = "nat \<rightharpoonup> nat"
type_synonym match = "nat \<times> nat \<times> nat"

text \<open>
  \<^verbatim>\<open>for i, elt in enumerate(b): indices = b2j.setdefault(elt, []); indices.append(i)\<close>
\<close>

fun chain_b_loop :: "nat \<Rightarrow> string \<Rightarrow> b2j_map \<Rightarrow> b2j_map" where
  "chain_b_loop i [] b2j = b2j"
| "chain_b_loop i (elt # rest) b2j =
     chain_b_loop (Suc i) rest
       (b2j(elt \<mapsto> (case b2j elt of None \<Rightarrow> [] | Some indices \<Rightarrow> indices) @ [i]))"

text \<open>
  \<^verbatim>\<open>__chain_b\<close>. With \<^verbatim>\<open>isjunk = None\<close> the junk set stays empty. When \<open>b\<close> has at
  least 200 elements, every element with more than \<open>n div 100 + 1\<close> occurrences is
  popular and is deleted from \<open>b2j\<close>. The result is \<open>b2j\<close> and \<open>bjunk\<close>.
\<close>

definition chain_b :: "string \<Rightarrow> b2j_map \<times> char set" where
  "chain_b b =
     (let b2j = chain_b_loop 0 b Map.empty;
          junk = {};
          n = length b
      in if 200 \<le> n
         then (let ntest = n div 100 + 1
               in (\<lambda>elt. case b2j elt of
                      None \<Rightarrow> None
                    | Some idxs \<Rightarrow> if ntest < length idxs then None else Some idxs,
                   junk))
         else (b2j, junk))"

text \<open>
  The inner loop of \<^verbatim>\<open>find_longest_match\<close>, over the indices \<open>j\<close> of \<open>a[i]\<close> in
  \<open>b\<close>: \<^verbatim>\<open>continue\<close> below \<open>blo\<close>, \<^verbatim>\<open>break\<close> from \<open>bhi\<close> on, otherwise
  \<^verbatim>\<open>k = newj2len[j] = j2len.get(j-1, 0) + 1\<close> and the best block is replaced when
  \<open>k\<close> is larger. The keys of \<open>j2len\<close> are indices, so \<^verbatim>\<open>j2len.get(-1, 0)\<close> is 0.
  As \<open>k \<le> i + 1\<close> and \<open>k \<le> j + 1\<close>, \<open>i - k + 1\<close> is written \<open>i + 1 - k\<close>.
\<close>

fun inner_loop ::
  "nat \<Rightarrow> nat \<Rightarrow> nat \<Rightarrow> j2len_map \<Rightarrow> nat list \<Rightarrow> j2len_map \<times> match \<Rightarrow> j2len_map \<times> match" where
  "inner_loop blo bhi i j2len [] st = st"
| "inner_loop blo bhi i j2len (j # js) (newj2len, besti, bestj, bestsize) =
     (if j < blo then inner_loop blo bhi i j2len js (newj2len, besti, bestj, bestsize)
      else if bhi \<le> j then (newj2len, besti, bestj, bestsize)
      else (let k = (if j = 0 then 0
                     else (case j2len (j - 1) of None \<Rightarrow> 0 | Some v \<Rightarrow> v)) + 1
            in if bestsize < k
               then inner_loop blo bhi i j2len js (newj2len(j \<mapsto> k), i + 1 - k, j + 1 - k, k)
               else inner_loop blo bhi i j2len js (newj2len(j \<mapsto> k), besti, bestj, bestsize)))"

text \<open>
  \<^verbatim>\<open>for i in range(alo, ahi)\<close>: a fresh \<open>newj2len\<close> per row, filled from
  \<^verbatim>\<open>b2j.get(a[i], nothing)\<close>, then \<^verbatim>\<open>j2len = newj2len\<close>. The callers keep
  \<open>ahi \<le> len(a)\<close>, so \<open>a[i]\<close> is in range.
\<close>

function outer_loop ::
  "string \<Rightarrow> b2j_map \<Rightarrow> nat \<Rightarrow> nat \<Rightarrow> nat \<Rightarrow> nat \<Rightarrow> j2len_map \<times> match \<Rightarrow> j2len_map \<times> match" where
  "outer_loop a b2j blo bhi i ahi (j2len, best) =
     (if i < ahi
      then outer_loop a b2j blo bhi (Suc i) ahi
             (inner_loop blo bhi i j2len
                (case b2j (a ! i) of None \<Rightarrow> [] | Some js \<Rightarrow> js) (Map.empty, best))
      else (j2len, best))"
  by pat_completeness auto
termination
  by (relation "measure (\<lambda>(a, b2j, blo, bhi, i, ahi, st). ahi - i)") auto

text \<open>
  The four \<^verbatim>\<open>while\<close> loops that extend the best block at both ends: first over
  elements that are not junk, then over junk. \<open>ok\<close> is the test on \<open>b\<close>'s element.
\<close>

function extend_back ::
  "string \<Rightarrow> string \<Rightarrow> (char \<Rightarrow> bool) \<Rightarrow> nat \<Rightarrow> nat \<Rightarrow> match \<Rightarrow> match" where
  "extend_back a b ok alo blo (besti, bestj, bestsize) =
     (if alo < besti \<and> blo < bestj \<and> ok (b ! (bestj - 1)) \<and> a ! (besti - 1) = b ! (bestj - 1)
      then extend_back a b ok alo blo (besti - 1, bestj - 1, bestsize + 1)
      else (besti, bestj, bestsize))"
  by pat_completeness auto
termination
  by (relation "measure (\<lambda>(a, b, ok, alo, blo, besti, bestj, bestsize). besti)") auto

function extend_fwd ::
  "string \<Rightarrow> string \<Rightarrow> (char \<Rightarrow> bool) \<Rightarrow> nat \<Rightarrow> nat \<Rightarrow> match \<Rightarrow> match" where
  "extend_fwd a b ok ahi bhi (besti, bestj, bestsize) =
     (if besti + bestsize < ahi \<and> bestj + bestsize < bhi \<and> ok (b ! (bestj + bestsize))
         \<and> a ! (besti + bestsize) = b ! (bestj + bestsize)
      then extend_fwd a b ok ahi bhi (besti, bestj, bestsize + 1)
      else (besti, bestj, bestsize))"
  by pat_completeness auto
termination
  by (relation "measure (\<lambda>(a, b, ok, ahi, bhi, besti, bestj, bestsize). ahi - (besti + bestsize))")
     auto

definition find_longest_match ::
  "string \<Rightarrow> string \<Rightarrow> b2j_map \<Rightarrow> char set \<Rightarrow> nat \<Rightarrow> nat \<Rightarrow> nat \<Rightarrow> nat \<Rightarrow> match" where
  "find_longest_match a b b2j bjunk alo ahi blo bhi =
     (let best = snd (outer_loop a b2j blo bhi alo ahi (Map.empty, alo, blo, 0));
          best = extend_back a b (\<lambda>c. c \<notin> bjunk) alo blo best;
          best = extend_fwd a b (\<lambda>c. c \<notin> bjunk) ahi bhi best;
          best = extend_back a b (\<lambda>c. c \<in> bjunk) alo blo best;
          best = extend_fwd a b (\<lambda>c. c \<in> bjunk) ahi bhi best
      in best)"

declare outer_loop.simps [simp del] extend_back.simps [simp del] extend_fwd.simps [simp del]

subsection \<open>The block returned by \<open>find_longest_match\<close> lies inside its window\<close>

text \<open>
  The loop invariants: every length stored in \<open>j2len\<close> for row \<open>i - 1\<close> fits between
  the lower bounds and its cell, and the best block is either the initial
  \<open>(alo, blo, 0)\<close> or a non-empty block inside \<open>a[alo:ahi]\<close> and \<open>b[blo:bhi]\<close>.
\<close>

definition j2len_ok :: "nat \<Rightarrow> nat \<Rightarrow> nat \<Rightarrow> j2len_map \<Rightarrow> bool" where
  "j2len_ok alo blo i m = (\<forall>j v. m j = Some v \<longrightarrow> blo \<le> j \<and> v + blo \<le> j + 1 \<and> v + alo \<le> i)"

definition best_ok :: "nat \<Rightarrow> nat \<Rightarrow> nat \<Rightarrow> nat \<Rightarrow> match \<Rightarrow> bool" where
  "best_ok alo ahi blo bhi best =
     (case best of (bi, bj, bs) \<Rightarrow>
        (bi = alo \<and> bj = blo \<and> bs = 0)
        \<or> (0 < bs \<and> alo \<le> bi \<and> bi + bs \<le> ahi \<and> blo \<le> bj \<and> bj + bs \<le> bhi))"

lemma j2len_ok_empty: "j2len_ok alo blo i Map.empty"
  by (simp add: j2len_ok_def)

lemma inner_loop_ok:
  assumes "j2len_ok alo blo i j2len" "alo \<le> i" "i < ahi"
  shows "j2len_ok alo blo (Suc i) new \<Longrightarrow> best_ok alo ahi blo bhi best \<Longrightarrow>
         inner_loop blo bhi i j2len js (new, best) = (new', best') \<Longrightarrow>
         j2len_ok alo blo (Suc i) new' \<and> best_ok alo ahi blo bhi best'"
proof (induction js arbitrary: new best)
  case Nil
  then show ?case by simp
next
  case (Cons j js)
  obtain bi bj bs where best: "best = (bi, bj, bs)" by (cases best)
  show ?case
  proof (cases "j < blo")
    case True
    with Cons best show ?thesis by simp
  next
    case lo: False
    show ?thesis
    proof (cases "bhi \<le> j")
      case True
      with Cons lo best show ?thesis by simp
    next
      case hi: False
      define k where "k = (if j = 0 then 0 else (case j2len (j - 1) of None \<Rightarrow> 0 | Some v \<Rightarrow> v)) + 1"
      have kpos: "0 < k" by (simp add: k_def)
      have prev: "j2len (j - 1) = Some v \<Longrightarrow> 0 < j \<Longrightarrow> v + blo \<le> j \<and> v + alo \<le> i" for v
      proof -
        assume a: "j2len (j - 1) = Some v" and p: "0 < j"
        from assms(1) a have "v + blo \<le> (j - 1) + 1 \<and> v + alo \<le> i"
          unfolding j2len_ok_def by blast
        with p show ?thesis by simp
      qed
      have kj: "k + blo \<le> j + 1"
      proof (cases "j = 0")
        case True
        with lo show ?thesis by (simp add: k_def)
      next
        case False
        show ?thesis
        proof (cases "j2len (j - 1)")
          case None
          with False lo show ?thesis by (simp add: k_def)
        next
          case (Some v)
          with prev [of v] False show ?thesis by (simp add: k_def)
        qed
      qed
      have ki: "k + alo \<le> Suc i"
      proof (cases "j = 0")
        case True
        with assms(2) show ?thesis by (simp add: k_def)
      next
        case False
        show ?thesis
        proof (cases "j2len (j - 1)")
          case None
          with False assms(2) show ?thesis by (simp add: k_def)
        next
          case (Some v)
          with prev [of v] False show ?thesis by (simp add: k_def)
        qed
      qed
      have new_ok: "j2len_ok alo blo (Suc i) (new(j \<mapsto> k))"
        using Cons.prems(1) kj ki lo unfolding j2len_ok_def by (simp add: not_less)
      have best_new: "best_ok alo ahi blo bhi (i + 1 - k, j + 1 - k, k)"
        using kpos kj ki hi assms(3) unfolding best_ok_def by auto
      show ?thesis
      proof (cases "bs < k")
        case True
        then have "inner_loop blo bhi i j2len js (new(j \<mapsto> k), i + 1 - k, j + 1 - k, k) = (new', best')"
          using Cons.prems(3) lo hi best by (simp add: k_def Let_def)
        from Cons.IH [OF new_ok best_new this] show ?thesis .
      next
        case False
        then have "inner_loop blo bhi i j2len js (new(j \<mapsto> k), best) = (new', best')"
          using Cons.prems(3) lo hi best by (simp add: k_def Let_def)
        from Cons.IH [OF new_ok Cons.prems(2) this] show ?thesis .
      qed
    qed
  qed
qed

lemma outer_loop_ok:
  "j2len_ok alo blo i j2len \<Longrightarrow> alo \<le> i \<Longrightarrow> best_ok alo ahi blo bhi best \<Longrightarrow>
   best_ok alo ahi blo bhi (snd (outer_loop a b2j blo bhi i ahi (j2len, best)))"
proof (induction a b2j blo bhi i ahi "(j2len, best)" arbitrary: j2len best rule: outer_loop.induct)
  case (1 a b2j blo bhi i ahi j2len best)
  show ?case
  proof (cases "i < ahi")
    case True
    obtain new' best' where step:
      "inner_loop blo bhi i j2len (case b2j (a ! i) of None \<Rightarrow> [] | Some js \<Rightarrow> js) (Map.empty, best) = (new', best')"
      by (cases "inner_loop blo bhi i j2len (case b2j (a ! i) of None \<Rightarrow> [] | Some js \<Rightarrow> js) (Map.empty, best)")
    have ok: "j2len_ok alo blo (Suc i) new' \<and> best_ok alo ahi blo bhi best'"
      using inner_loop_ok [OF "1.prems"(1,2) True j2len_ok_empty "1.prems"(3) step] .
    have "best_ok alo ahi blo bhi (snd (outer_loop a b2j blo bhi (Suc i) ahi (new', best')))"
      using "1.hyps" [OF True step] ok "1.prems"(2) by simp
    then show ?thesis
      using True step by (subst outer_loop.simps) simp
  next
    case False
    then show ?thesis
      using "1.prems" by (subst outer_loop.simps) simp
  qed
qed

lemma extend_back_ok:
  "best_ok alo ahi blo bhi best \<Longrightarrow> best_ok alo ahi blo bhi (extend_back a b ok alo blo best)"
proof (induction a b ok alo blo best rule: extend_back.induct)
  case (1 a b ok alo blo besti bestj bestsize)
  show ?case
  proof (cases "alo < besti \<and> blo < bestj \<and> ok (b ! (bestj - 1)) \<and> a ! (besti - 1) = b ! (bestj - 1)")
    case True
    have "best_ok alo ahi blo bhi (besti - 1, bestj - 1, bestsize + 1)"
      using "1.prems" True unfolding best_ok_def by auto
    from "1.IH" [OF True this] show ?thesis
      using True by (subst extend_back.simps) simp
  next
    case False
    then show ?thesis
      using "1.prems" by (subst extend_back.simps) auto
  qed
qed

lemma extend_fwd_ok:
  "best_ok alo ahi blo bhi best \<Longrightarrow> best_ok alo ahi blo bhi (extend_fwd a b ok ahi bhi best)"
proof (induction a b ok ahi bhi best rule: extend_fwd.induct)
  case (1 a b ok ahi bhi besti bestj bestsize)
  show ?case
  proof (cases "besti + bestsize < ahi \<and> bestj + bestsize < bhi \<and> ok (b ! (bestj + bestsize))
         \<and> a ! (besti + bestsize) = b ! (bestj + bestsize)")
    case True
    have "best_ok alo ahi blo bhi (besti, bestj, bestsize + 1)"
      using "1.prems" True unfolding best_ok_def by auto
    from "1.IH" [OF True this] show ?thesis
      using True by (subst extend_fwd.simps) simp
  next
    case False
    then show ?thesis
      using "1.prems" by (subst extend_fwd.simps) auto
  qed
qed

lemma find_longest_match_ok:
  "best_ok alo ahi blo bhi (find_longest_match a b b2j bjunk alo ahi blo bhi)"
proof -
  have "best_ok alo ahi blo bhi (alo, blo, 0)" by (simp add: best_ok_def)
  then have "best_ok alo ahi blo bhi (snd (outer_loop a b2j blo bhi alo ahi (Map.empty, alo, blo, 0)))"
    by (intro outer_loop_ok j2len_ok_empty) simp_all
  then show ?thesis
    unfolding find_longest_match_def Let_def
    by (intro extend_fwd_ok extend_back_ok)
qed

lemma find_longest_match_bounds:
  assumes "find_longest_match a b b2j bjunk alo ahi blo bhi = (i, j, k)" "k \<noteq> 0"
  shows "alo \<le> i \<and> i + k \<le> ahi \<and> blo \<le> j \<and> j + k \<le> bhi"
  using find_longest_match_ok [of alo ahi blo bhi a b b2j bjunk] assms
  by (simp add: best_ok_def)

text \<open>
  Hence the two windows that \<^verbatim>\<open>get_matching_blocks\<close> pushes for a block found in
  a window within the sequences are within the sequences too: every \<open>a[i]\<close> and
  \<open>b[j]\<close> read by \<open>find_longest_match\<close> is in range.
\<close>

lemma pushed_windows_in_range:
  assumes "find_longest_match a b b2j bjunk alo ahi blo bhi = (i, j, k)" "k \<noteq> 0"
    and "ahi \<le> length a" "bhi \<le> length b"
  shows "i \<le> length a \<and> j \<le> length b \<and> i + k \<le> ahi \<and> j + k \<le> bhi"
  using find_longest_match_bounds [OF assms(1,2)] assms(3,4) by simp

subsection \<open>\<open>get_matching_blocks\<close>, \<open>ratio\<close> and \<open>calculate_similarity\<close>\<close>

text \<open>
  The \<^verbatim>\<open>while queue:\<close> loop. The Python list \<open>queue\<close> is used as a stack
  (\<^verbatim>\<open>queue.pop()\<close>, \<^verbatim>\<open>queue.append\<close>): here its last element is the head of the
  list. The left remainder is pushed first and the right one second, so the right
  one is popped first.
\<close>

function matching_loop ::
  "string \<Rightarrow> string \<Rightarrow> b2j_map \<Rightarrow> char set \<Rightarrow> (nat \<times> nat \<times> nat \<times> nat) list \<Rightarrow> match list
     \<Rightarrow> match list" where
  "matching_loop a b b2j bjunk [] matching_blocks = matching_blocks"
| "matching_loop a b b2j bjunk ((alo, ahi, blo, bhi) # queue) matching_blocks =
     (case find_longest_match a b b2j bjunk alo ahi blo bhi of
        (i, j, k) \<Rightarrow>
          if k \<noteq> 0
          then matching_loop a b b2j bjunk
                 ((if i + k < ahi \<and> j + k < bhi then [(i + k, ahi, j + k, bhi)] else [])
                  @ (if alo < i \<and> blo < j then [(alo, i, blo, j)] else [])
                  @ queue)
                 (matching_blocks @ [(i, j, k)])
          else matching_loop a b b2j bjunk queue matching_blocks)"
  by pat_completeness auto
termination
proof (relation "measure (\<lambda>(a, b, b2j, bjunk, queue, mbs).
                   sum_list (map (\<lambda>(alo, ahi, blo, bhi). 2 * (ahi - alo) + 1) queue))",
       goal_cases)
  case 1
  show ?case by simp
next
  case (2 a b b2j bjunk alo ahi blo bhi queue mbs i jk j k)
  then have "find_longest_match a b b2j bjunk alo ahi blo bhi = (i, j, k)" "k \<noteq> 0"
    by simp_all
  from find_longest_match_bounds [OF this]
  have "alo \<le> i" "i + k \<le> ahi" by simp_all
  with \<open>k \<noteq> 0\<close> show ?case by auto
next
  case 3
  then show ?case by simp
qed

declare matching_loop.simps [simp del]

text \<open>
  The loop that merges adjacent blocks of the sorted list:
  \<^verbatim>\<open>if i1 + k1 == i2 and j1 + k1 == j2: k1 += k2\<close>, otherwise the pending block is
  appended when it is not empty and replaced.
\<close>

fun collapse_loop :: "match list \<Rightarrow> match \<Rightarrow> match list \<Rightarrow> match \<times> match list" where
  "collapse_loop [] cur non_adjacent = (cur, non_adjacent)"
| "collapse_loop ((i2, j2, k2) # rest) (i1, j1, k1) non_adjacent =
     (if i1 + k1 = i2 \<and> j1 + k1 = j2
      then collapse_loop rest (i1, j1, k1 + k2) non_adjacent
      else collapse_loop rest (i2, j2, k2)
             (if k1 \<noteq> 0 then non_adjacent @ [(i1, j1, k1)] else non_adjacent))"

text \<open>
  \<^verbatim>\<open>matching_blocks.sort()\<close> orders the triples lexicographically, as \<^const>\<open>sort\<close>
  does on products. The sentinel \<open>(la, lb, 0)\<close> ends the list.
\<close>

definition get_matching_blocks :: "string \<Rightarrow> string \<Rightarrow> b2j_map \<Rightarrow> char set \<Rightarrow> match list" where
  "get_matching_blocks a b b2j bjunk =
     (let la = length a;
          lb = length b;
          matching_blocks = sort (matching_loop a b b2j bjunk [(0, la, 0, lb)] [])
      in case collapse_loop matching_blocks (0, 0, 0) [] of
           ((i1, j1, k1), non_adjacent) \<Rightarrow>
             (if k1 \<noteq> 0 then non_adjacent @ [(i1, j1, k1)] else non_adjacent) @ [(la, lb, 0)])"

text \<open>
  \<^verbatim>\<open>_calculate_ratio\<close>: \<^verbatim>\<open>2.0 * matches / length\<close> if \<open>length\<close> is not zero, else
  \<open>1.0\<close>. Both integers are converted to doubles; the product and the quotient
  are rounded.
\<close>

definition calculate_ratio :: "nat \<Rightarrow> nat \<Rightarrow> rat" where
  "calculate_ratio matches len =
     (if len \<noteq> 0 then float_div (float_mul 2 (float_of_int matches)) (float_of_int len)
      else 1)"

lemma calculate_ratio_no_match: "calculate_ratio 0 len = (if len = 0 then 1 else 0)"
  by (simp add: calculate_ratio_def float_mul_def float_div_def)

lemma calculate_ratio_all_match: "calculate_ratio n (n + n) = 1"
proof (cases "n = 0")
  case True
  then show ?thesis by (simp add: calculate_ratio_def)
next
  case False
  then have "float_of_int n \<noteq> 0" using float_of_int_pos [of n] by simp
  with False show ?thesis
    by (simp add: calculate_ratio_def float_mul_two float_of_int_double float_div_def)
qed

lemma calculate_ratio_range:
  assumes "2 * m \<le> len"
  shows "0 \<le> calculate_ratio m len \<and> calculate_ratio m len \<le> 1"
proof (cases "m = 0 \<or> len = 0")
  case True
  show ?thesis
  proof (cases "len = 0")
    case True
    then show ?thesis by (simp add: calculate_ratio_def)
  next
    case False
    with \<open>m = 0 \<or> len = 0\<close> have "m = 0" by simp
    then show ?thesis by (simp add: calculate_ratio_no_match)
  qed
next
  case False
  then have m: "0 < m" and len: "0 < len" by simp_all
  define p where "p = 2 * float_of_int m"
  define q where "q = float_of_int len"
  have p: "0 < p" using float_of_int_pos [OF m] by (simp add: p_def)
  have "p = float_of_int (m + m)" by (simp add: p_def float_of_int_double)
  also have "\<dots> \<le> q" unfolding q_def using assms by (intro float_of_int_mono) simp
  finally have pq: "p \<le> q" .
  with p have q: "0 < q" by simp
  have pos: "0 < p / q" using p q by simp
  have le: "p / q \<le> 1" using pq q by simp
  have "calculate_ratio m len = round_double (p / q)"
    using len by (simp add: calculate_ratio_def float_mul_two float_div_def p_def q_def)
  moreover have "0 < round_double (p / q)" by (rule round_double_pos [OF pos])
  moreover have "round_double (p / q) \<le> round_double 1" by (rule round_double_mono [OF pos le])
  ultimately show ?thesis by simp
qed

definition matches_of :: "string \<Rightarrow> string \<Rightarrow> nat" where
  "matches_of a b =
     (case chain_b b of
        (b2j, bjunk) \<Rightarrow> sum_list (map (\<lambda>(i, j, k). k) (get_matching_blocks a b b2j bjunk)))"

definition ratio :: "string \<Rightarrow> string \<Rightarrow> rat" where
  "ratio a b = calculate_ratio (matches_of a b) (length a + length b)"

definition calculate_similarity :: "string \<Rightarrow> string \<Rightarrow> rat" where
  "calculate_similarity a b = ratio a b"

subsection \<open>The number of matched characters\<close>

text \<open>
  \<open>size_sum\<close> is the sum of the sizes of a list of blocks. Sorting and merging
  adjacent blocks keep it; each block found lies inside its window and the two
  remainders pushed are disjoint from it, so the sizes add up to at most the
  length of either sequence.
\<close>

definition size_sum :: "match list \<Rightarrow> nat" where
  "size_sum ms = sum_list (map (\<lambda>(i, j, k). k) ms)"

lemma size_sum_simps [simp]:
  "size_sum [] = 0"
  "size_sum ((i, j, k) # ms) = k + size_sum ms"
  "size_sum (ms @ ns) = size_sum ms + size_sum ns"
  by (simp_all add: size_sum_def)

lemma size_sum_insort: "size_sum (insort m ms) = size_sum [m] + size_sum ms"
  by (induction ms) (auto simp: size_sum_def)

lemma size_sum_sort: "size_sum (sort ms) = size_sum ms"
proof (induction ms)
  case Nil
  show ?case by simp
next
  case (Cons m ms)
  obtain i j k where m: "m = (i, j, k)" by (cases m)
  show ?case using Cons by (simp add: size_sum_insort m)
qed

lemma collapse_loop_sum:
  "collapse_loop ms (i1, j1, k1) acc = ((i, j, k), acc') \<Longrightarrow>
   k + size_sum acc' = k1 + size_sum acc + size_sum ms"
proof (induction ms "(i1, j1, k1)" acc arbitrary: i1 j1 k1 rule: collapse_loop.induct)
  case (1 non_adjacent)
  then show ?case by simp
next
  case (2 i2 j2 k2 rest i1 j1 k1 non_adjacent)
  show ?case
  proof (cases "i1 + k1 = i2 \<and> j1 + k1 = j2")
    case True
    with 2 show ?thesis by simp
  next
    case False
    with "2.prems" have "collapse_loop rest (i2, j2, k2)
             (if k1 \<noteq> 0 then non_adjacent @ [(i1, j1, k1)] else non_adjacent) = ((i, j, k), acc')"
      by auto
    from "2.hyps"(2) [OF False this] show ?thesis by auto
  qed
qed

lemma get_matching_blocks_sum:
  "size_sum (get_matching_blocks a b b2j bjunk)
     = size_sum (matching_loop a b b2j bjunk [(0, length a, 0, length b)] [])"
proof -
  define ms where "ms = sort (matching_loop a b b2j bjunk [(0, length a, 0, length b)] [])"
  obtain i j k acc' where c: "collapse_loop ms (0, 0, 0) [] = ((i, j, k), acc')"
    by (metis prod_cases3 surj_pair)
  from collapse_loop_sum [OF c] have "k + size_sum acc' = size_sum ms" by simp
  moreover have "size_sum (get_matching_blocks a b b2j bjunk) = k + size_sum acc'"
    using c by (simp add: get_matching_blocks_def Let_def ms_def [symmetric])
  ultimately show ?thesis by (simp add: ms_def size_sum_sort)
qed

definition a_room :: "(nat \<times> nat \<times> nat \<times> nat) list \<Rightarrow> nat" where
  "a_room queue = sum_list (map (\<lambda>(alo, ahi, blo, bhi). ahi - alo) queue)"

definition b_room :: "(nat \<times> nat \<times> nat \<times> nat) list \<Rightarrow> nat" where
  "b_room queue = sum_list (map (\<lambda>(alo, ahi, blo, bhi). bhi - blo) queue)"

lemma matching_loop_sum_le:
  "size_sum (matching_loop a b b2j bjunk queue mbs) \<le> size_sum mbs + a_room queue
   \<and> size_sum (matching_loop a b b2j bjunk queue mbs) \<le> size_sum mbs + b_room queue"
proof (induction a b b2j bjunk queue mbs rule: matching_loop.induct)
  case (1 a b b2j bjunk mbs)
  show ?case by (simp add: matching_loop.simps)
next
  case (2 a b b2j bjunk alo ahi blo bhi queue mbs)
  obtain i j k where flm: "find_longest_match a b b2j bjunk alo ahi blo bhi = (i, j, k)"
    by (cases "find_longest_match a b b2j bjunk alo ahi blo bhi")
  show ?case
  proof (cases "k = 0")
    case True
    have "matching_loop a b b2j bjunk ((alo, ahi, blo, bhi) # queue) mbs
            = matching_loop a b b2j bjunk queue mbs"
      using flm True by (simp add: matching_loop.simps)
    moreover have "a_room queue \<le> a_room ((alo, ahi, blo, bhi) # queue)"
      "b_room queue \<le> b_room ((alo, ahi, blo, bhi) # queue)"
      by (simp_all add: a_room_def b_room_def)
    ultimately show ?thesis
      using "2.IH"(2) [OF flm [symmetric] refl] True by simp
  next
    case False
    define q' where "q' = (if i + k < ahi \<and> j + k < bhi then [(i + k, ahi, j + k, bhi)] else [])
                  @ (if alo < i \<and> blo < j then [(alo, i, blo, j)] else []) @ queue"
    have step: "matching_loop a b b2j bjunk ((alo, ahi, blo, bhi) # queue) mbs
            = matching_loop a b b2j bjunk q' (mbs @ [(i, j, k)])"
      using flm False by (simp add: matching_loop.simps q'_def)
    from find_longest_match_bounds [OF flm False]
    have bnd: "alo \<le> i" "i + k \<le> ahi" "blo \<le> j" "j + k \<le> bhi" by simp_all
    have ra: "k + a_room q' \<le> a_room ((alo, ahi, blo, bhi) # queue)"
      using bnd by (auto simp: a_room_def q'_def)
    have rb: "k + b_room q' \<le> b_room ((alo, ahi, blo, bhi) # queue)"
      using bnd by (auto simp: b_room_def q'_def)
    have ih: "size_sum (matching_loop a b b2j bjunk q' (mbs @ [(i, j, k)])) \<le> size_sum (mbs @ [(i, j, k)]) + a_room q'
       \<and> size_sum (matching_loop a b b2j bjunk q' (mbs @ [(i, j, k)])) \<le> size_sum (mbs @ [(i, j, k)]) + b_room q'"
      using "2.IH"(1) [OF flm [symmetric] refl False] by (simp add: q'_def)
    show ?thesis unfolding step using ih ra rb by simp
  qed
qed

lemma matches_of_le: "matches_of a b \<le> length a \<and> matches_of a b \<le> length b"
proof -
  obtain b2j bjunk where cb: "chain_b b = (b2j, bjunk)" by (cases "chain_b b")
  have "matches_of a b = size_sum (matching_loop a b b2j bjunk [(0, length a, 0, length b)] [])"
    using cb get_matching_blocks_sum [of a b b2j bjunk]
    by (simp add: matches_of_def size_sum_def)
  with matching_loop_sum_le [of a b b2j bjunk "[(0, length a, 0, length b)]" "[]"]
  show ?thesis by (simp add: a_room_def b_room_def)
qed

lemma ratio_bounds: "0 \<le> ratio a b \<and> ratio a b \<le> 1"
proof -
  have "2 * matches_of a b \<le> length a + length b"
    using matches_of_le [of a b] by simp
  from calculate_ratio_range [OF this] show ?thesis by (simp add: ratio_def)
qed

subsection \<open>A sequence matched against itself\<close>

text \<open>
  \<open>indices_from i xs c\<close> lists the positions of \<open>c\<close> in \<open>xs\<close>, counted from \<open>i\<close>, in
  ascending order: it is what \<open>chain_b_loop\<close> appends to the entry of \<open>c\<close>.
\<close>

fun indices_from :: "nat \<Rightarrow> string \<Rightarrow> char \<Rightarrow> nat list" where
  "indices_from i [] c = []"
| "indices_from i (e # xs) c = (if e = c then i # indices_from (Suc i) xs c else indices_from (Suc i) xs c)"

lemma chain_b_loop_lookup:
  "chain_b_loop i xs m c =
     (if indices_from i xs c = [] then m c
      else Some ((case m c of None \<Rightarrow> [] | Some l \<Rightarrow> l) @ indices_from i xs c))"
proof (induction xs arbitrary: i m)
  case Nil
  show ?case by simp
next
  case (Cons e xs)
  show ?case
    by (cases "e = c") (simp_all add: Cons.IH)
qed

lemma set_indices_from:
  "set (indices_from i xs c) = {j. i \<le> j \<and> j < i + length xs \<and> xs ! (j - i) = c}"
proof (induction xs arbitrary: i)
  case Nil
  show ?case by simp
next
  case (Cons e xs)
  have shift: "(e # xs) ! (j - i) = xs ! (j - Suc i)" if "Suc i \<le> j" for j
    using that by (simp add: nth_Cons' Suc_le_eq)
  have step: "{j. i \<le> j \<and> j < i + length (e # xs) \<and> (e # xs) ! (j - i) = c}
               = (if e = c then {i} else {}) \<union> {j. Suc i \<le> j \<and> j < Suc i + length xs \<and> xs ! (j - Suc i) = c}"
  proof (rule set_eqI)
    fix j
    show "j \<in> {j. i \<le> j \<and> j < i + length (e # xs) \<and> (e # xs) ! (j - i) = c}
          \<longleftrightarrow> j \<in> (if e = c then {i} else {}) \<union> {j. Suc i \<le> j \<and> j < Suc i + length xs \<and> xs ! (j - Suc i) = c}"
    proof (cases "j = i")
      case True
      then show ?thesis by simp
    next
      case False
      then have "i \<le> j \<longleftrightarrow> Suc i \<le> j" by auto
      with False shift [of j] show ?thesis by auto
    qed
  qed
  show ?case unfolding step by (simp add: Cons.IH)
qed

lemma sorted_indices_from: "sorted_wrt (<) (indices_from i xs c)"
proof (induction xs arbitrary: i)
  case Nil
  show ?case by simp
next
  case (Cons e xs)
  have "\<forall>j \<in> set (indices_from (Suc i) xs c). i < j"
    by (simp add: set_indices_from)
  with Cons.IH [of "Suc i"] show ?case by simp
qed

lemma chain_b_junk: "chain_b b = (b2j, bjunk) \<Longrightarrow> bjunk = {}"
  by (auto simp: chain_b_def Let_def split: if_splits)

lemma chain_b_Some:
  assumes "chain_b b = (b2j, bjunk)" "b2j c = Some js"
  shows "js = indices_from 0 b c"
proof -
  have base: "chain_b_loop 0 b Map.empty c = Some l \<Longrightarrow> l = indices_from 0 b c" for l
    by (simp add: chain_b_loop_lookup split: if_splits)
  show ?thesis
  proof (cases "200 \<le> length b")
    case True
    with assms have "chain_b_loop 0 b Map.empty c = Some js"
      by (auto simp: chain_b_def Let_def split: option.splits if_splits)
    then show ?thesis by (rule base)
  next
    case False
    with assms have "chain_b_loop 0 b Map.empty c = Some js"
      by (auto simp: chain_b_def Let_def)
    then show ?thesis by (rule base)
  qed
qed


text \<open>
  \<open>diag_run b2j a i\<close> counts the elements just before position \<open>i\<close> of \<open>a\<close> that
  are still keys of \<open>b2j\<close>, going left until one is not. When \<open>a\<close> is matched
  against itself, no cell of the table holds more than the diagonal run of its row
  or of its column, and the diagonal cell holds exactly that run: the first block
  of maximal length is found on the diagonal.
\<close>

fun diag_run :: "b2j_map \<Rightarrow> string \<Rightarrow> nat \<Rightarrow> nat" where
  "diag_run b2j a 0 = 0"
| "diag_run b2j a (Suc i) = (if b2j (a ! i) = None then 0 else Suc (diag_run b2j a i))"

lemma inner_loop_self:
  fixes a :: string and b2j :: b2j_map and prev :: j2len_map and i n :: nat
  defines "E \<equiv> diag_run b2j a"
  assumes i: "i < n"
    and P1: "\<And>j v. prev j = Some v \<Longrightarrow> v \<le> E (Suc j) \<and> v \<le> E i"
    and P2: "0 < i \<Longrightarrow> b2j (a ! (i - 1)) \<noteq> None \<Longrightarrow> prev (i - 1) = Some (E i)"
    and nonpop: "b2j (a ! i) \<noteq> None"
  shows "sorted_wrt (<) js \<Longrightarrow> (\<forall>j\<in>set js. j < n \<and> a ! j = a ! i) \<Longrightarrow>
         (\<forall>j v. new j = Some v \<longrightarrow> v \<le> E (Suc j) \<and> v \<le> E (Suc i)) \<Longrightarrow>
         (i \<in> set js \<or> (new i = Some (E (Suc i)) \<and> E (Suc i) \<le> bs)) \<Longrightarrow>
         (\<forall>i' \<le> i. E i' \<le> bs) \<Longrightarrow>
         inner_loop 0 n i prev js (new, bi, bi, bs) = (new', bi', bj', bs') \<Longrightarrow>
         (\<forall>j v. new' j = Some v \<longrightarrow> v \<le> E (Suc j) \<and> v \<le> E (Suc i))
         \<and> new' i = Some (E (Suc i)) \<and> bi' = bj' \<and> (\<forall>i' \<le> Suc i. E i' \<le> bs')"
proof (induction js arbitrary: new bi bs)
  case Nil
  then have eq: "new' = new" "bi' = bi" "bj' = bi" "bs' = bs" by simp_all
  from Nil.prems(4) have n2: "new i = Some (E (Suc i))" "E (Suc i) \<le> bs" by simp_all
  have "\<forall>i' \<le> Suc i. E i' \<le> bs"
    using Nil.prems(5) n2(2) by (auto simp: le_Suc_eq)
  with Nil.prems(3) n2 eq show ?case by simp
next
  case (Cons j js)
  define pv where "pv = (if j = 0 then 0 else (case prev (j - 1) of None \<Rightarrow> 0 | Some v \<Rightarrow> v))"
  define k where "k = pv + 1"
  from Cons.prems(2) have jn: "j < n" and aj: "a ! j = a ! i" by simp_all
  from Cons.prems(1) have sorted_js: "sorted_wrt (<) js" and above: "\<forall>x\<in>set js. j < x"
    by simp_all
  from Cons.prems(2) have in_js: "\<forall>x\<in>set js. x < n \<and> a ! x = a ! i" by simp
  have ESj: "E (Suc j) = Suc (E j)" using nonpop aj by (simp add: E_def)
  have ESi: "E (Suc i) = Suc (E i)" using nonpop by (simp add: E_def)
  have pv_le: "pv \<le> E j \<and> pv \<le> E i"
  proof (cases "j = 0")
    case True
    then show ?thesis by (simp add: pv_def)
  next
    case False
    show ?thesis
    proof (cases "prev (j - 1)")
      case None
      with False show ?thesis by (simp add: pv_def)
    next
      case (Some v)
      from P1 [OF Some] False have "v \<le> E j \<and> v \<le> E i" by simp
      with Some False show ?thesis by (simp add: pv_def)
    qed
  qed
  have k_le: "k \<le> E (Suc j)" "k \<le> E (Suc i)"
    using pv_le by (simp_all add: k_def ESj ESi)
  have new_ok: "\<forall>x v. (new(j \<mapsto> k)) x = Some v \<longrightarrow> v \<le> E (Suc x) \<and> v \<le> E (Suc i)"
    using Cons.prems(3) k_le by simp
  have step: "inner_loop 0 n i prev (j # js) (new, bi, bi, bs) =
                (if bs < k then inner_loop 0 n i prev js (new(j \<mapsto> k), i + 1 - k, j + 1 - k, k)
                 else inner_loop 0 n i prev js (new(j \<mapsto> k), bi, bi, bs))"
    using jn by (simp add: k_def pv_def Let_def)
  show ?case
  proof (cases "j = i")
    case True
    have "pv = E i"
    proof (cases "i = 0")
      case True
      with \<open>j = i\<close> show ?thesis by (simp add: pv_def E_def)
    next
      case False
      show ?thesis
      proof (cases "b2j (a ! (i - 1)) = None")
        case True
        from False have "E i = E (Suc (i - 1))" by simp
        also have "\<dots> = 0" using True by (simp add: E_def)
        finally show ?thesis using pv_le by simp
      next
        case nn: False
        from P2 [OF _ nn] False have "prev (i - 1) = Some (E i)" by simp
        with False \<open>j = i\<close> show ?thesis by (simp add: pv_def)
      qed
    qed
    then have kE: "k = E (Suc i)" by (simp add: k_def ESi)
    show ?thesis
    proof (cases "bs < k")
      case lt: True
      have run: "inner_loop 0 n i prev js (new(j \<mapsto> k), i + 1 - k, i + 1 - k, k) = (new', bi', bj', bs')"
        using Cons.prems(6) step lt True by simp
      have n2: "i \<in> set js \<or> ((new(j \<mapsto> k)) i = Some (E (Suc i)) \<and> E (Suc i) \<le> k)"
        using True kE by simp
      have b2: "\<forall>i' \<le> i. E i' \<le> k"
        using Cons.prems(5) lt by (meson le_trans less_imp_le)
      from Cons.IH [OF sorted_js in_js new_ok n2 b2 run] show ?thesis .
    next
      case ge: False
      have run: "inner_loop 0 n i prev js (new(j \<mapsto> k), bi, bi, bs) = (new', bi', bj', bs')"
        using Cons.prems(6) step ge by simp
      have n2: "i \<in> set js \<or> ((new(j \<mapsto> k)) i = Some (E (Suc i)) \<and> E (Suc i) \<le> bs)"
        using True kE ge by simp
      from Cons.IH [OF sorted_js in_js new_ok n2 Cons.prems(5) run] show ?thesis .
    qed
  next
    case neq: False
    have "k \<le> bs"
    proof (cases "j < i")
      case True
      then have "Suc j \<le> i" by simp
      with Cons.prems(5) have "E (Suc j) \<le> bs" by blast
      with k_le(1) show ?thesis by simp
    next
      case False
      with neq have "i < j" by simp
      with above have "i \<notin> set (j # js)" by auto
      with Cons.prems(4) have "E (Suc i) \<le> bs" by blast
      with k_le(2) show ?thesis by simp
    qed
    then have run: "inner_loop 0 n i prev js (new(j \<mapsto> k), bi, bi, bs) = (new', bi', bj', bs')"
      using Cons.prems(6) step by simp
    have n2: "i \<in> set js \<or> ((new(j \<mapsto> k)) i = Some (E (Suc i)) \<and> E (Suc i) \<le> bs)"
      using Cons.prems(4) neq by auto
    from Cons.IH [OF sorted_js in_js new_ok n2 Cons.prems(5) run] show ?thesis .
  qed
qed


lemma outer_loop_self:
  assumes cb: "chain_b a = (b2j, bjunk)"
  shows "i \<le> length a \<Longrightarrow>
     (\<forall>j v. prev j = Some v \<longrightarrow> v \<le> diag_run b2j a (Suc j) \<and> v \<le> diag_run b2j a i) \<Longrightarrow>
     (0 < i \<longrightarrow> b2j (a ! (i - 1)) \<noteq> None \<longrightarrow> prev (i - 1) = Some (diag_run b2j a i)) \<Longrightarrow>
     (\<forall>i' \<le> i. diag_run b2j a i' \<le> bs) \<Longrightarrow>
     outer_loop a b2j 0 (length a) i (length a) (prev, bi, bi, bs) = (j2len', bi', bj', bs') \<Longrightarrow>
     bi' = bj'"
proof (induction "length a - i" arbitrary: i prev bi bs)
  case 0
  then have "\<not> i < length a" by simp
  with "0.prems"(5) show ?case by (simp add: outer_loop.simps)
next
  case (Suc m)
  then have i: "i < length a" by simp
  define row where "row = (case b2j (a ! i) of None \<Rightarrow> [] | Some js \<Rightarrow> js)"
  obtain new ci cj cs where inner:
    "inner_loop 0 (length a) i prev row (Map.empty, bi, bi, bs) = (new, ci, cj, cs)"
    by (metis prod_cases4)
  have run: "outer_loop a b2j 0 (length a) (Suc i) (length a) (new, ci, cj, cs) = (j2len', bi', bj', bs')"
    using Suc.prems(5) i inner by (subst (asm) outer_loop.simps) (simp add: row_def)
  have inv: "(\<forall>j v. new j = Some v \<longrightarrow> v \<le> diag_run b2j a (Suc j) \<and> v \<le> diag_run b2j a (Suc i))
       \<and> (b2j (a ! i) \<noteq> None \<longrightarrow> new i = Some (diag_run b2j a (Suc i)))
       \<and> ci = cj \<and> (\<forall>i' \<le> Suc i. diag_run b2j a i' \<le> cs)"
  proof (cases "b2j (a ! i)")
    case None
    then have "row = []" by (simp add: row_def)
    with inner have eq: "new = Map.empty" "ci = bi" "cj = bi" "cs = bs" by simp_all
    have "\<forall>i' \<le> Suc i. diag_run b2j a i' \<le> bs"
      using Suc.prems(4) None by (auto simp: le_Suc_eq)
    with eq None show ?thesis by simp
  next
    case (Some js)
    then have row: "row = js" by (simp add: row_def)
    have js: "js = indices_from 0 a (a ! i)" using chain_b_Some [OF cb Some] .
    have sorted: "sorted_wrt (<) js" unfolding js by (rule sorted_indices_from)
    have elems: "\<forall>j\<in>set js. j < length a \<and> a ! j = a ! i"
      unfolding js by (simp add: set_indices_from)
    have mem: "i \<in> set js" unfolding js using i by (simp add: set_indices_from)
    have nonpop: "b2j (a ! i) \<noteq> None" using Some by simp
    have p1: "\<And>j v. prev j = Some v \<Longrightarrow> v \<le> diag_run b2j a (Suc j) \<and> v \<le> diag_run b2j a i"
      using Suc.prems(2) by blast
    have p2: "0 < i \<Longrightarrow> b2j (a ! (i - 1)) \<noteq> None \<Longrightarrow> prev (i - 1) = Some (diag_run b2j a i)"
      using Suc.prems(3) by blast
    have n1: "\<forall>j v. Map.empty j = Some v \<longrightarrow> v \<le> diag_run b2j a (Suc j) \<and> v \<le> diag_run b2j a (Suc i)"
      by simp
    have n2: "i \<in> set js \<or> (Map.empty i = Some (diag_run b2j a (Suc i)) \<and> diag_run b2j a (Suc i) \<le> bs)"
      using mem by simp
    from inner_loop_self [OF i p1 p2 nonpop sorted elems n1 n2 Suc.prems(4) inner [unfolded row]]
    show ?thesis by simp
  qed
  have m: "m = length a - Suc i" using Suc.hyps(2) by simp
  have le: "Suc i \<le> length a" using i by simp
  have p1': "\<forall>j v. new j = Some v \<longrightarrow> v \<le> diag_run b2j a (Suc j) \<and> v \<le> diag_run b2j a (Suc i)"
    using inv by blast
  have p2': "0 < Suc i \<longrightarrow> b2j (a ! (Suc i - 1)) \<noteq> None \<longrightarrow> new (Suc i - 1) = Some (diag_run b2j a (Suc i))"
    using inv by simp
  have b2': "\<forall>i' \<le> Suc i. diag_run b2j a i' \<le> cs" using inv by blast
  have "ci = cj" using inv by blast
  with run have run': "outer_loop a b2j 0 (length a) (Suc i) (length a) (new, ci, ci, cs) = (j2len', bi', bj', bs')"
    by simp
  from Suc.hyps(1) [OF m le p1' p2' b2' run'] show ?case .
qed

lemma extend_back_self:
  "\<forall>c. ok c \<Longrightarrow> extend_back a a ok 0 0 (d, d, s) = (0, 0, s + d)"
proof (induction d arbitrary: s)
  case 0
  show ?case by (subst extend_back.simps) simp
next
  case (Suc d)
  have "extend_back a a ok 0 0 (d, d, s + 1) = (0, 0, s + 1 + d)"
    using Suc.IH Suc.prems by blast
  with Suc.prems show ?case by (subst extend_back.simps) simp
qed

lemma extend_fwd_self:
  "\<forall>c. ok c \<Longrightarrow> s \<le> n \<Longrightarrow> extend_fwd a a ok n n (0, 0, s) = (0, 0, n)"
proof (induction "n - s" arbitrary: s)
  case 0
  then show ?case by (subst extend_fwd.simps) simp
next
  case (Suc m)
  then have lt: "s < n" and m: "m = n - (s + 1)" and le: "s + 1 \<le> n" by simp_all
  have "extend_fwd a a ok n n (0, 0, s + 1) = (0, 0, n)"
    using Suc.hyps(1) [OF m Suc.prems(1) le] .
  with lt Suc.prems(1) show ?case by (subst extend_fwd.simps) simp
qed

lemma extend_back_none: "\<forall>c. \<not> ok c \<Longrightarrow> extend_back a b ok alo blo st = st"
  by (cases st) (simp add: extend_back.simps)

lemma extend_fwd_none: "\<forall>c. \<not> ok c \<Longrightarrow> extend_fwd a b ok ahi bhi st = st"
  by (cases st) (simp add: extend_fwd.simps)

lemma find_longest_match_self:
  assumes cb: "chain_b a = (b2j, bjunk)"
  shows "find_longest_match a a b2j bjunk 0 (length a) 0 (length a) = (0, 0, length a)"
proof -
  have junk: "bjunk = {}" using chain_b_junk [OF cb] .
  obtain j2len d d' s where outer:
    "outer_loop a b2j 0 (length a) 0 (length a) (Map.empty, 0, 0, 0) = (j2len, d, d', s)"
    by (metis prod_cases4)
  have diag: "d = d'"
    by (rule outer_loop_self [OF cb _ _ _ _ outer]) simp_all
  have "best_ok 0 (length a) 0 (length a)
          (snd (outer_loop a b2j 0 (length a) 0 (length a) (Map.empty, 0, 0, 0)))"
    by (intro outer_loop_ok j2len_ok_empty) (simp_all add: best_ok_def)
  then have room: "s + d \<le> length a"
    using outer diag by (auto simp: best_ok_def)
  have "find_longest_match a a b2j bjunk 0 (length a) 0 (length a)
          = extend_fwd a a (\<lambda>c. c \<notin> bjunk) (length a) (length a)
              (extend_back a a (\<lambda>c. c \<notin> bjunk) 0 0 (d, d, s))"
    using outer diag junk
    by (simp add: find_longest_match_def Let_def extend_back_none extend_fwd_none)
  also have "\<dots> = (0, 0, length a)"
    using room junk by (simp add: extend_back_self extend_fwd_self)
  finally show ?thesis .
qed

lemma matches_of_self: "matches_of a a = length a"
proof -
  obtain b2j bjunk where cb: "chain_b a = (b2j, bjunk)" by (cases "chain_b a")
  have loop: "matching_loop a a b2j bjunk [(0, length a, 0, length a)] []
                = (if length a = 0 then [] else [(0, 0, length a)])"
    by (simp add: matching_loop.simps find_longest_match_self [OF cb])
  have "matches_of a a = size_sum (matching_loop a a b2j bjunk [(0, length a, 0, length a)] [])"
    using cb get_matching_blocks_sum [of a a b2j bjunk]
    by (simp add: matches_of_def size_sum_def)
  then show ?thesis by (simp add: loop)
qed

section \<open>Analysis orchestrator: \<open>analyze_dependencies\<close> and \<open>main\<close>\<close>

text \<open>
  A Python \<^verbatim>\<open>float\<close>: a finite double, represented by the rational it denotes
  (the scores are doubles by \<open>round_double\<close>), an infinity or a NaN (\<^verbatim>\<open>--threshold\<close> is parsed by \<^verbatim>\<open>float\<close>, which accepts
  \<^verbatim>\<open>inf\<close> and \<^verbatim>\<open>nan\<close>). \<open>float_le x y\<close> is \<^verbatim>\<open>x <= y\<close>: false as soon as one side
  is a NaN.
\<close>

datatype pyfloat = Finite rat | PosInf | NegInf | NaN

fun float_le :: "pyfloat \<Rightarrow> pyfloat \<Rightarrow> bool" where
  "float_le NaN y = False"
| "float_le x NaN = False"
| "float_le NegInf y = True"
| "float_le x PosInf = True"
| "float_le (Finite x) (Finite y) = (x \<le> y)"
| "float_le PosInf y = False"
| "float_le x NegInf = False"

text \<open>
  The file system as the program sees it: opening and reading a path raises
  \<^verbatim>\<open>FileNotFoundError\<close>, raises another exception, or delivers the text.
\<close>

datatype io_error = FileNotFoundError | OtherException string

type_synonym filesystem = "string \<Rightarrow> io_error + string"

text \<open>
  The root logger: a record is emitted when its level is at least the level set by
  \<^verbatim>\<open>logging.getLogger().setLevel(args.log_level)\<close>. The messages are kept as
  constructors, one per logging call of the program.
\<close>

datatype log_level = DEBUG | INFO | WARNING | ERROR | CRITICAL

fun level_no :: "log_level \<Rightarrow> nat" where
  "level_no DEBUG = 10"
| "level_no INFO = 20"
| "level_no WARNING = 30"
| "level_no ERROR = 40"
| "level_no CRITICAL = 50"

datatype log_msg =
    Threshold_must_be_between_0_and_1
  | Number_of_top_packages_must_be_positive
  | Analyzing_dependencies string pyfloat int
  | Requirements_file_not_found string
  | Error_reading_requirements_file string

text \<open>
  What a run leaves behind: the lines printed on standard output, the log records
  emitted, and the paths it opened. A printed line is a fixed text or the line of
  one finding (\<^verbatim>\<open>Dependency: .., Similar to: .., Similarity: ..\<close>).
\<close>

datatype out_line = Line string | Risk_line string string rat

record io_state =
  stdout :: "out_line list"
  log :: "(log_level \<times> log_msg) list"
  opened :: "string list"

definition logging_call :: "log_level \<Rightarrow> log_level \<Rightarrow> log_msg \<Rightarrow> io_state \<Rightarrow> io_state" where
  "logging_call logger_level lvl msg st =
     (if level_no logger_level \<le> level_no lvl then st\<lparr>log := log st @ [(lvl, msg)]\<rparr> else st)"

definition print :: "out_line \<Rightarrow> io_state \<Rightarrow> io_state" where
  "print l st = st\<lparr>stdout := stdout st @ [l]\<rparr>"

type_synonym finding = "string \<times> string \<times> rat"

text \<open>
  The two nested \<^verbatim>\<open>for\<close> loops of \<^verbatim>\<open>analyze_dependencies\<close>:
  \<^verbatim>\<open>similarity = calculate_similarity(dependency.lower(), popular_package.lower())\<close>,
  and the triple is appended \<^verbatim>\<open>if similarity >= threshold\<close>.
\<close>

fun packages_loop :: "pyfloat \<Rightarrow> string \<Rightarrow> string list \<Rightarrow> finding list \<Rightarrow> finding list" where
  "packages_loop threshold dependency [] typosquatting_risks = typosquatting_risks"
| "packages_loop threshold dependency (popular_package # rest) typosquatting_risks =
     (let similarity = calculate_similarity (lower dependency) (lower popular_package)
      in packages_loop threshold dependency rest
           (if float_le threshold (Finite similarity)
            then typosquatting_risks @ [(dependency, popular_package, similarity)]
            else typosquatting_risks))"

fun dependencies_loop :: "pyfloat \<Rightarrow> string list \<Rightarrow> string list \<Rightarrow> finding list \<Rightarrow> finding list" where
  "dependencies_loop threshold [] packages typosquatting_risks = typosquatting_risks"
| "dependencies_loop threshold (dependency # rest) packages typosquatting_risks =
     dependencies_loop threshold rest packages
       (packages_loop threshold dependency packages typosquatting_risks)"

definition analyze_dependencies ::
  "filesystem \<Rightarrow> log_level \<Rightarrow> string \<Rightarrow> pyfloat \<Rightarrow> int \<Rightarrow> io_state \<Rightarrow> finding list \<times> io_state" where
  "analyze_dependencies fs logger_level requirements_file threshold top_packages st =
     (let st = st\<lparr>opened := opened st @ [requirements_file]\<rparr>
      in case fs requirements_file of
           Inl FileNotFoundError \<Rightarrow>
             ([], logging_call logger_level ERROR (Requirements_file_not_found requirements_file) st)
         | Inl (OtherException e) \<Rightarrow>
             ([], logging_call logger_level ERROR (Error_reading_requirements_file e) st)
         | Inr text \<Rightarrow>
             (let dependencies = dependencies_of (iter_lines text);
                  packages = get_top_pypi_packages top_packages
              in (dependencies_loop threshold dependencies packages [], st)))"

text \<open>
  The parsed command line (\<^verbatim>\<open>args\<close>) and \<^verbatim>\<open>main\<close>. \<^verbatim>\<open>sys.exit(1)\<close> ends the run
  with exit code 1; a run that reaches the end of \<^verbatim>\<open>main\<close> exits with code 0.
\<close>

record namespace =
  requirements_file :: string
  threshold :: pyfloat
  top_packages :: int
  log_level :: log_level

fun print_risks :: "finding list \<Rightarrow> io_state \<Rightarrow> io_state" where
  "print_risks [] st = st"
| "print_risks ((dependency, target, similarity) # rest) st =
     print_risks rest (print (Risk_line dependency target similarity) st)"

definition main :: "filesystem \<Rightarrow> namespace \<Rightarrow> io_state \<times> int" where
  "main fs args =
     (let st = \<lparr>stdout = [], log = [], opened = []\<rparr>
      in if \<not> (float_le (Finite 0) (threshold args) \<and> float_le (threshold args) (Finite 1))
         then (logging_call (log_level args) ERROR Threshold_must_be_between_0_and_1 st, 1)
         else if top_packages args \<le> 0
         then (logging_call (log_level args) ERROR Number_of_top_packages_must_be_positive st, 1)
         else (let st = logging_call (log_level args) INFO
                          (Analyzing_dependencies (requirements_file args) (threshold args)
                             (top_packages args)) st
               in case analyze_dependencies fs (log_level args) (requirements_file args)
                         (threshold args) (top_packages args) st of
                    (risks, st) \<Rightarrow>
                      if risks \<noteq> []
                      then (print_risks risks
                              (print (Line ''Potential typosquatting risks found:'') st), 0)
                      else (print (Line ''No potential typosquatting risks found.'') st, 0)))"

text \<open>A manifest and a file system holding it, for the concrete runs below.\<close>

definition manifest_text :: string where
  "manifest_text = ''Numpx==1.0'' @ [CHR 0x0A] @ ''reqeusts'' @ [CHR 0x0A]"

text \<open>The double written \<open>0.8\<close>: the double nearest to 4/5, slightly above it.\<close>

definition double_0_8 :: rat where
  "double_0_8 = 3602879701896397 / 4503599627370496"

definition manifest_fs :: filesystem where
  "manifest_fs p = (if p = ''requirements.txt'' then Inr manifest_text else Inl FileNotFoundError)"

section \<open>Properties of the manifest reader\<close>

text \<open>
  A line that is blank after trimming, or that has \<open>#\<close> as its very first
  character, contributes no dependency name.
\<close>

lemma skipped_line:
  "strip line = [] \<or> startswith line ''#'' \<Longrightarrow>
   dependencies_of (before @ line # after) = dependencies_of (before @ after)"
  by (auto simp: dependencies_of_def keep_line_def)

text \<open>
  Claim C2 asks that a line whose first non-whitespace character is \<open>#\<close>
  contributes no name, also when whitespace precedes the \<open>#\<close>. The comprehension
  tests \<^verbatim>\<open>line.startswith("#")\<close> on the untrimmed line: the indented comment
  \<open>  # foo\<close> is kept and yields the name \<open># foo\<close>.
\<close>

theorem indented_comment_kept:
  "strip (''  # foo'' @ [CHR 0x0A]) = ''# foo''
   \<and> keep_line (''  # foo'' @ [CHR 0x0A])
   \<and> dependencies_of (iter_lines (''  # foo'' @ [CHR 0x0A])) = [''# foo'']"
  by code_simp

text \<open>
  Claim C3 asks that the name is the text left of the first \<open>==\<close>, trimmed on both
  sides. The comprehension trims the line before it splits: whitespace between the
  name and \<open>==\<close> stays in the name. \<open>numpy==1.21.0\<close> yields \<open>numpy\<close>, but
  \<open>numpy == 1.21.0\<close> yields \<open>numpy\<close> followed by a space.
\<close>

theorem name_keeps_space_before_marker:
  "dependencies_of (iter_lines (''numpy==1.21.0'' @ [CHR 0x0A])) = [''numpy'']
   \<and> keep_line (''numpy == 1.21.0'' @ [CHR 0x0A])
   \<and> dependencies_of (iter_lines (''numpy == 1.21.0'' @ [CHR 0x0A])) = [''numpy '']
   \<and> isspace (last (line_name (''numpy == 1.21.0'' @ [CHR 0x0A])))"
  by code_simp

section \<open>Properties of the reference provider\<close>

text \<open>
  Claim C7. For every integer \<open>n \<ge> 0\<close> the provider returns the first \<open>n\<close> entries
  of the fixed list in their order, a sequence of length \<open>min n 20\<close>: nothing for
  \<open>n = 0\<close>, and the whole list, unpadded, once \<open>n\<close> reaches the size of the list.
\<close>

theorem top_packages_prefix:
  "0 \<le> n \<Longrightarrow>
     get_top_pypi_packages n = take (nat n) popular_packages
     \<and> length (get_top_pypi_packages n) = min (nat n) (length popular_packages)
     \<and> (n = 0 \<longrightarrow> get_top_pypi_packages n = [])
     \<and> (int (length popular_packages) \<le> n \<longrightarrow> get_top_pypi_packages n = popular_packages)"
  by (auto simp: get_top_pypi_packages_def slice_to_def)

theorem top_packages_prefix_witness:
  "(0::int) \<le> 3 \<and> get_top_pypi_packages 3 = [''requests'', ''numpy'', ''pandas'']
   \<and> length (get_top_pypi_packages 3) = 3"
  using top_packages_prefix [of 3] by (simp add: popular_packages_def)

text \<open>
  Claim C10. For a negative \<open>n\<close> the slice counts from the end: the provider
  returns the first \<open>20 + n\<close> entries, which is empty only when \<open>n \<le> -20\<close>.
\<close>

theorem top_packages_negative:
  "n < 0 \<Longrightarrow>
     get_top_pypi_packages n = take (nat (20 + n)) popular_packages
     \<and> length (get_top_pypi_packages n) = nat (20 + n)
     \<and> (get_top_pypi_packages n = [] \<longleftrightarrow> n \<le> -20)"
proof -
  assume neg: "n < 0"
  have eq: "get_top_pypi_packages n = take (nat (20 + n)) popular_packages"
    using neg by (simp add: get_top_pypi_packages_def slice_to_def length_popular_packages)
  have len: "length (get_top_pypi_packages n) = nat (20 + n)"
    using neg by (simp add: eq length_popular_packages)
  have "get_top_pypi_packages n = [] \<longleftrightarrow> length (get_top_pypi_packages n) = 0"
    by simp
  also have "\<dots> \<longleftrightarrow> n \<le> -20"
    unfolding len by auto
  finally show ?thesis using eq len by blast
qed

theorem top_packages_negative_witness:
  "(-18::int) < 0 \<and> get_top_pypi_packages (-18) = [''requests'', ''numpy'']"
  using top_packages_negative [of "-18"] by (simp add: popular_packages_def)

section \<open>Properties of the similarity scorer\<close>

text \<open>
  Claim C4. Every string has similarity 1 with itself.
\<close>

theorem self_similarity: "calculate_similarity a a = 1"
  by (simp add: calculate_similarity_def ratio_def matches_of_self calculate_ratio_all_match)

text \<open>
  Claim C5 as stated fails: the similarity depends on the order of its arguments.
  \<open>tide\<close> against \<open>diet\<close> scores 1/4, \<open>diet\<close> against \<open>tide\<close> scores 1/2.
\<close>

theorem similarity_asymmetric_counterexample:
  "calculate_similarity ''tide'' ''diet'' = 1 / 4
   \<and> calculate_similarity ''diet'' ''tide'' = 1 / 2
   \<and> calculate_similarity ''tide'' ''diet'' \<noteq> calculate_similarity ''diet'' ''tide''"
proof -
  have "calculate_similarity ''tide'' ''diet'' = 1 / 4" by code_simp
  moreover have "calculate_similarity ''diet'' ''tide'' = 1 / 2" by code_simp
  ultimately show ?thesis by simp
qed

lemma similarity_empty_right: "calculate_similarity s [] = (if s = [] then 1 else 0)"
proof -
  have "matches_of s [] = 0" using matches_of_le [of s "[]"] by simp
  then show ?thesis by (simp add: calculate_similarity_def ratio_def calculate_ratio_no_match)
qed

lemma similarity_empty_left: "calculate_similarity [] s = (if s = [] then 1 else 0)"
proof -
  have "matches_of [] s = 0" using matches_of_le [of "[]" s] by simp
  then show ?thesis by (simp add: calculate_similarity_def ratio_def calculate_ratio_no_match)
qed

text \<open>
  Claim C5, as amended. The similarity of \<open>a\<close> and \<open>b\<close> is the same in both orders
  when the two strings are equal or one of them is empty.
\<close>

theorem similarity_symmetric_cases:
  "a = [] \<or> b = [] \<or> a = b \<Longrightarrow> calculate_similarity a b = calculate_similarity b a"
  by (auto simp: similarity_empty_left similarity_empty_right)

theorem similarity_symmetric_cases_witness:
  "calculate_similarity [] ''numpy'' = calculate_similarity ''numpy'' []"
  using similarity_symmetric_cases [of "[]" "''numpy''"] by simp

text \<open>
  Claim C6. For all strings \<open>a\<close> and \<open>b\<close> the similarity lies in the closed
  interval from 0 to 1; two empty strings score 1, and the empty string against a
  non-empty one scores 0.
\<close>

theorem similarity_range:
  "0 \<le> calculate_similarity a b \<and> calculate_similarity a b \<le> 1
   \<and> calculate_similarity [] [] = 1
   \<and> (s \<noteq> [] \<longrightarrow> calculate_similarity [] s = 0)"
proof -
  have "matches_of [] s = 0"
    using matches_of_le [of "[]" s] by simp
  then have "s \<noteq> [] \<longrightarrow> calculate_similarity [] s = 0"
    by (simp add: calculate_similarity_def ratio_def calculate_ratio_no_match)
  moreover have "calculate_similarity [] [] = 1"
    by (simp add: calculate_similarity_def ratio_def calculate_ratio_def)
  ultimately show ?thesis
    using ratio_bounds [of a b] by (simp add: calculate_similarity_def)
qed

theorem similarity_range_witness:
  "0 \<le> calculate_similarity ''abxcd'' ''abcd'' \<and> calculate_similarity ''abxcd'' ''abcd'' \<le> 1
   \<and> calculate_similarity [] [] = 1
   \<and> ''numpy'' \<noteq> [] \<and> calculate_similarity [] ''numpy'' = 0"
  using similarity_range [of "''abxcd''" "''abcd''" "''numpy''"] by simp

section \<open>Properties of the orchestrator\<close>

text \<open>
  The two loops append, in order, the triples of the pairs that pass the test.
\<close>

lemma packages_loop_append:
  "packages_loop thr d ps acc =
     acc @ map (\<lambda>p. (d, p, calculate_similarity (lower d) (lower p)))
             (filter (\<lambda>p. float_le thr (Finite (calculate_similarity (lower d) (lower p)))) ps)"
  by (induction ps arbitrary: acc) (simp_all add: Let_def)

lemma dependencies_loop_append:
  "dependencies_loop thr ds ps acc =
     acc @ concat (map (\<lambda>d. map (\<lambda>p. (d, p, calculate_similarity (lower d) (lower p)))
             (filter (\<lambda>p. float_le thr (Finite (calculate_similarity (lower d) (lower p)))) ps)) ds)"
proof (induction ds arbitrary: acc)
  case Nil
  show ?case by simp
next
  case (Cons d ds)
  show ?case
    by (simp only: dependencies_loop.simps Cons.IH packages_loop_append) simp
qed

text \<open>
  Claim C1. When the manifest is read, the findings are exactly the pairs
  (dependency, reference) whose similarity, taken on the lowercased names, is at
  least the threshold (equality included), one finding per pair, dependencies in
  manifest order and, for each, references in popularity order; nothing is
  deduplicated.
\<close>

theorem analyze_findings:
  "fs path = Inr text \<Longrightarrow>
   fst (analyze_dependencies fs lvl path thr n st) =
     concat (map (\<lambda>d. map (\<lambda>p. (d, p, calculate_similarity (lower d) (lower p)))
                    (filter (\<lambda>p. float_le thr (Finite (calculate_similarity (lower d) (lower p))))
                       (get_top_pypi_packages n)))
               (dependencies_of (iter_lines text)))"
  by (simp add: analyze_dependencies_def Let_def dependencies_loop_append)

theorem analyze_findings_witness:
  "manifest_fs ''requirements.txt'' = Inr manifest_text
   \<and> fst (analyze_dependencies manifest_fs INFO ''requirements.txt'' (Finite double_0_8) 2
            \<lparr>stdout = [], log = [], opened = []\<rparr>)
       = [(''Numpx'', ''numpy'', double_0_8), (''reqeusts'', ''requests'', 7 / 8)]"
proof -
  have h: "manifest_fs ''requirements.txt'' = Inr manifest_text"
    by (simp add: manifest_fs_def)
  have "concat (map (\<lambda>d. map (\<lambda>p. (d, p, calculate_similarity (lower d) (lower p)))
                    (filter (\<lambda>p. float_le (Finite double_0_8)
                                  (Finite (calculate_similarity (lower d) (lower p))))
                       (get_top_pypi_packages 2)))
               (dependencies_of (iter_lines manifest_text)))
        = [(''Numpx'', ''numpy'', double_0_8), (''reqeusts'', ''requests'', 7 / 8)]"
    by code_simp
  with analyze_findings [of manifest_fs "''requirements.txt''" manifest_text INFO
         "Finite double_0_8" 2 "\<lparr>stdout = [], log = [], opened = []\<rparr>"] h
  show ?thesis by simp
qed

text \<open>
  Claim C9. When the threshold is not within 0 and 1, or the number of top
  packages is not positive, the run ends with exit code 1, nothing is printed on
  standard output and no file has been opened: no analysis has started.
\<close>

theorem invalid_configuration_exits:
  "\<not> (float_le (Finite 0) (threshold args) \<and> float_le (threshold args) (Finite 1))
     \<or> top_packages args \<le> 0 \<Longrightarrow>
   snd (main fs args) = 1 \<and> stdout (fst (main fs args)) = [] \<and> opened (fst (main fs args)) = []"
  by (auto simp: main_def Let_def logging_call_def)

theorem invalid_configuration_exits_witness:
  "float_le (Finite (3 / 2)) (Finite 1) = False
   \<and> snd (main manifest_fs \<lparr>requirements_file = ''requirements.txt'', threshold = Finite (3 / 2),
                 top_packages = 20, log_level = INFO\<rparr>) = 1
   \<and> stdout (fst (main manifest_fs \<lparr>requirements_file = ''requirements.txt'', threshold = Finite (3 / 2),
                 top_packages = 20, log_level = INFO\<rparr>)) = []"
  using invalid_configuration_exits [of "\<lparr>requirements_file = ''requirements.txt'', threshold = Finite (3 / 2),
                 top_packages = 20, log_level = INFO\<rparr>" manifest_fs]
  by simp

lemma analyze_unreadable:
  "fs path = Inl e \<Longrightarrow>
   analyze_dependencies fs lvl path thr n st
     = ([], logging_call lvl ERROR
              (case e of FileNotFoundError \<Rightarrow> Requirements_file_not_found path
                       | OtherException x \<Rightarrow> Error_reading_requirements_file x)
              (st\<lparr>opened := opened st @ [path]\<rparr>))"
  by (cases e) (simp_all add: analyze_dependencies_def Let_def)

text \<open>
  Claim C8, as amended. When the manifest cannot be read and the configuration is
  valid, \<open>analyze_dependencies\<close> returns no finding, the only line printed is
  \<open>No potential typosquatting risks found.\<close> and the exit code is 0. The error
  record is emitted unless the log level is \<open>CRITICAL\<close>, which filters it out.
\<close>

theorem missing_manifest_run:
  assumes "fs (requirements_file args) = Inl e"
    and "float_le (Finite 0) (threshold args)" "float_le (threshold args) (Finite 1)"
    and "0 < top_packages args"
  shows "snd (main fs args) = 0
    \<and> stdout (fst (main fs args)) = [Line ''No potential typosquatting risks found.'']
    \<and> fst (analyze_dependencies fs (log_level args) (requirements_file args)
              (threshold args) (top_packages args) st) = []
    \<and> ((\<exists>msg. (ERROR, msg) \<in> set (log (fst (main fs args)))) \<longleftrightarrow> log_level args \<noteq> CRITICAL)"
proof -
  have lv: "level_no (log_level args) \<le> 40 \<longleftrightarrow> log_level args \<noteq> CRITICAL"
    by (cases "log_level args") simp_all
  have lv2: "level_no (log_level args) \<le> 20 \<or> \<not> level_no (log_level args) \<le> 20" by simp
  show ?thesis
    using assms lv
    by (auto simp: main_def Let_def analyze_unreadable logging_call_def print_def)
qed

theorem missing_manifest_run_witness:
  "manifest_fs ''missing.txt'' = Inl FileNotFoundError
   \<and> snd (main manifest_fs \<lparr>requirements_file = ''missing.txt'', threshold = Finite (4 / 5),
                 top_packages = 20, log_level = INFO\<rparr>) = 0
   \<and> stdout (fst (main manifest_fs \<lparr>requirements_file = ''missing.txt'', threshold = Finite (4 / 5),
                 top_packages = 20, log_level = INFO\<rparr>))
       = [Line ''No potential typosquatting risks found.'']
   \<and> (\<exists>msg. (ERROR, msg) \<in> set (log (fst (main manifest_fs
         \<lparr>requirements_file = ''missing.txt'', threshold = Finite (4 / 5),
                 top_packages = 20, log_level = INFO\<rparr>))))"
proof -
  have h: "manifest_fs ''missing.txt'' = Inl FileNotFoundError"
    by (simp add: manifest_fs_def)
  show ?thesis
    using h missing_manifest_run [of manifest_fs
        "\<lparr>requirements_file = ''missing.txt'', threshold = Finite (4 / 5),
                 top_packages = 20, log_level = INFO\<rparr>" FileNotFoundError]
    by simp
qed

text \<open>
  Claim C8 as stated fails: with \<open>--log-level CRITICAL\<close> and a missing manifest,
  the configuration is valid and the run ends with code 0, but no error record is
  logged.
\<close>

theorem missing_manifest_critical_counterexample:
  "manifest_fs ''missing.txt'' = Inl FileNotFoundError
   \<and> float_le (Finite 0) (Finite (4 / 5)) \<and> float_le (Finite (4 / 5)) (Finite 1) \<and> (0::int) < 20
   \<and> main manifest_fs \<lparr>requirements_file = ''missing.txt'', threshold = Finite (4 / 5),
                 top_packages = 20, log_level = CRITICAL\<rparr>
       = (\<lparr>stdout = [Line ''No potential typosquatting risks found.''], log = [],
            opened = [''missing.txt'']\<rparr>, 0)"
  by (simp add: manifest_fs_def main_def Let_def analyze_dependencies_def logging_call_def
        print_def)

end
